theory Spec2Isabelle
  imports Main "HOL-Library.Word"
begin

section \<open>The arena allocator of arena.go\<close>

text \<open>
  A shallow embedding of \<^verbatim>\<open>arena.go\<close> as run by one goroutine. Go's \<^verbatim>\<open>int\<close> and
  \<^verbatim>\<open>int64\<close> are 64 bits wide; they are modelled as \<open>int\<close> with the two's complement
  wrap-around written out (\<open>wrap64\<close>) at the additions and multiplications whose operands
  come from the caller. The counter \<^verbatim>\<open>chunkCursor\<close> is only ever incremented by one,
  starting at zero, once per expansion, so it is left unwrapped.

  Byte slices live in a store: a list of buffers, a buffer being addressed by its position
  in the list. \<^verbatim>\<open>current\<close> and the elements of \<^verbatim>\<open>chunks\<close> are slices covering a whole
  buffer each, so they are kept as buffer addresses, and two of them alias exactly when
  the addresses are equal. A panic is a value \<open>Inl f\<close>; the state at the moment of the
  panic is returned next to it, as a deferred \<^verbatim>\<open>recover\<close> would find it.
\<close>

subsection \<open>Machine integers, faults, the store\<close>

definition wrap64 :: "int \<Rightarrow> int" where
  "wrap64 x = (x + 2 ^ 63) mod 2 ^ 64 - 2 ^ 63"

definition is_int64 :: "int \<Rightarrow> bool" where
  "is_int64 x \<longleftrightarrow> - (2 ^ 63) \<le> x \<and> x < 2 ^ 63"

datatype fault =
    CapacityExceeded    \<comment> \<open>\<^verbatim>\<open>panic("arena limit of %d chunks reached")\<close>\<close>
  | ObjectTooLarge      \<comment> \<open>\<^verbatim>\<open>panic("object size %d is larger than chunk size %d")\<close>\<close>
  | ResetRace           \<comment> \<open>\<^verbatim>\<open>panic("reset failed, another thread is using the arena")\<close>\<close>
  | BoundsFault         \<comment> \<open>Go's run-time panic for an index or slice bound out of range\<close>
  | MakeFault           \<comment> \<open>Go's run-time panic of \<^verbatim>\<open>make\<close>/\<^verbatim>\<open>unsafe.Slice\<close>: len out of range\<close>

type_synonym byte = "8 word"
type_synonym store = "byte list list"
type_synonym ptr = "nat \<times> nat"    \<comment> \<open>buffer address, byte offset inside the buffer\<close>

text \<open>The largest allocation the Go run-time accepts on a 64-bit platform (\<^verbatim>\<open>maxAlloc\<close>).\<close>

definition maxAlloc :: int where
  "maxAlloc = 2 ^ 48"

text \<open>\<^verbatim>\<open>make([]byte, n)\<close>: a new zeroed buffer at the next free address.\<close>

definition make_bytes :: "store \<Rightarrow> int \<Rightarrow> fault + (nat \<times> store)" where
  "make_bytes h n =
     (if n < 0 \<or> maxAlloc < n then Inl MakeFault
      else Inr (length h, h @ [replicate (nat n) 0]))"

definition buflen :: "store \<Rightarrow> nat \<Rightarrow> int" where
  "buflen h b = (if b < length h then int (length (h ! b)) else 0)"

subsection \<open>The Arena struct\<close>

record arena =
  chunkSize :: int
  limit :: int
  cursor :: int
  chunkCursor :: int
  current :: nat
  chunks :: "nat list"
  heap :: store

text \<open>
  \<^verbatim>\<open>unsafe.Pointer(&a.current[lo:hi][0])\<close>: the slice expression panics unless
  \<open>0 \<le> lo \<le> hi \<le> cap\<close>, the index expression panics on the empty slice.
\<close>

definition first_addr :: "arena \<Rightarrow> int \<Rightarrow> int \<Rightarrow> fault + ptr" where
  "first_addr a lo hi =
     (if 0 \<le> lo \<and> lo \<le> hi \<and> hi \<le> buflen (heap a) (current a) \<and> lo < hi
      then Inr (current a, nat lo)
      else Inl BoundsFault)"

subsection \<open>Options and Create\<close>

datatype opt = WithLimit int

fun apply_opt :: "opt \<Rightarrow> arena \<Rightarrow> arena" where
  "apply_opt (WithLimit l) a = a\<lparr>limit := l\<rparr>"

definition Create :: "store \<Rightarrow> int \<Rightarrow> opt list \<Rightarrow> fault + arena" where
  "Create h cs options =
     (case make_bytes h cs of
        Inl f \<Rightarrow> Inl f
      | Inr (cur, h') \<Rightarrow>
          Inr (fold apply_opt options
                 \<lparr>chunkSize = cs, limit = 0, cursor = 0, chunkCursor = 0,
                  current = cur, chunks = [cur], heap = h'\<rparr>))"

subsection \<open>alloc and resize\<close>

text \<open>
  The part of \<^verbatim>\<open>resize\<close> that selects the next active chunk (lines 169 to 174):
  take the slot at the chunk index when the index trails the end of the list,
  otherwise append a new chunk when the list is shorter than the limit, otherwise
  leave \<^verbatim>\<open>current\<close> as it is.
\<close>

definition next_chunk :: "arena \<Rightarrow> fault + arena" where
  "next_chunk a =
     (if chunkCursor a < int (length (chunks a)) - 1 then
        (if 0 \<le> chunkCursor a
         then Inr (a\<lparr>current := chunks a ! nat (chunkCursor a)\<rparr>)
         else Inl BoundsFault)
      else if int (length (chunks a)) < limit a then
        (case make_bytes (heap a) (chunkSize a) of
           Inl f \<Rightarrow> Inl f
         | Inr (b, h') \<Rightarrow> Inr (a\<lparr>current := b, chunks := chunks a @ [b], heap := h'\<rparr>))
      else Inr a)"

text \<open>
  \<^verbatim>\<open>resize\<close> after its compare-and-swap has succeeded (lines 169 to 180). A panic of the
  chunk selection leaves the state as the swap made it.
\<close>

definition rollover :: "arena \<Rightarrow> int \<Rightarrow> (fault + ptr) \<times> arena" where
  "rollover a n =
     (case next_chunk a of
        Inl f \<Rightarrow> (Inl f, a)
      | Inr a1 \<Rightarrow>
          (let a2 = a1\<lparr>chunkCursor := chunkCursor a1 + 1\<rparr>;
               next = n
           in if next > chunkSize a2 then (Inl ObjectTooLarge, a2)
              else (first_addr a2 (wrap64 (next - n)) next, a2)))"

text \<open>
  \<^verbatim>\<open>alloc\<close> and \<^verbatim>\<open>resize\<close> call each other: \<^verbatim>\<open>resize\<close> re-enters \<^verbatim>\<open>alloc\<close> when its
  compare-and-swap finds the cursor changed. \<^verbatim>\<open>alloc\<close> hands over the value it has just
  stored, so with one goroutine the swap succeeds and the recursion stops there.
\<close>

function alloc :: "arena \<Rightarrow> int \<Rightarrow> (fault + ptr) \<times> arena"
  and resize :: "arena \<Rightarrow> int \<Rightarrow> int \<Rightarrow> (fault + ptr) \<times> arena" where
  "alloc a n =
     (let next = wrap64 (cursor a + n);
          a1 = a\<lparr>cursor := next\<rparr>
      in if next < chunkSize a1 then (first_addr a1 (wrap64 (next - n)) next, a1)
         else resize a1 n next)"
| "resize a n next =
     (if limit a \<noteq> 0 \<and> chunkCursor a \<ge> limit a then (Inl CapacityExceeded, a)
      else if cursor a \<noteq> next then alloc a n
      else rollover (a\<lparr>cursor := n\<rparr>) n)"
  by pat_completeness auto
termination
  by (relation "measure (\<lambda>x. case x of
         Inl (a, n) \<Rightarrow> 1
       | Inr (a, n, next) \<Rightarrow> (if cursor a \<noteq> next then 2 else 0))") auto

declare alloc.simps [simp del] resize.simps [simp del]

subsection \<open>Reset\<close>

text \<open>The zeroing loops of \<^verbatim>\<open>Reset\<close>: every byte of every chunk of the list.\<close>

definition zero_buf :: "store \<Rightarrow> nat \<Rightarrow> store" where
  "zero_buf h b = (if b < length h then h[b := replicate (length (h ! b)) 0] else h)"

definition zero_chunks :: "store \<Rightarrow> nat list \<Rightarrow> store" where
  "zero_chunks h bs = fold (\<lambda>b h'. zero_buf h' b) bs h"

definition Reset :: "arena \<Rightarrow> (fault + unit) \<times> arena" where
  "Reset a =
     (let before = cursor a;
          a1 = a\<lparr>heap := zero_chunks (heap a) (chunks a)\<rparr>
      in case chunks a1 of
           [] \<Rightarrow> (Inl BoundsFault, a1)
         | c # cs \<Rightarrow>
             (let a2 = a1\<lparr>current := c, chunks := [c], chunkCursor := 0\<rparr>
              in if cursor a2 = before then (Inr (), a2\<lparr>cursor := 0\<rparr>)
                 else (Inl ResetRace, a2)))"

subsection \<open>The typed helpers\<close>

text \<open>
  Reading and writing a run of bytes of a buffer. Every range written below has passed the
  bounds check of a slice expression, or is the range \<^verbatim>\<open>alloc\<close> has returned.
\<close>

definition load_bytes :: "store \<Rightarrow> nat \<Rightarrow> nat \<Rightarrow> nat \<Rightarrow> byte list" where
  "load_bytes h b off n = take n (drop off (h ! b))"

definition store_bytes :: "store \<Rightarrow> nat \<Rightarrow> nat \<Rightarrow> byte list \<Rightarrow> store" where
  "store_bytes h b off bs =
     (if b < length h \<and> off + length bs \<le> length (h ! b)
      then h[b := take off (h ! b) @ bs @ drop (off + length bs) (h ! b)]
      else h)"

text \<open>
  \<^verbatim>\<open>New[T]\<close> with \<open>sz\<close> for \<^verbatim>\<open>unsafe.Sizeof(t)\<close>; \<^verbatim>\<open>Value[T]\<close> with the bytes of the value,
  as many as \<^verbatim>\<open>unsafe.Sizeof(t)\<close>.
\<close>

definition New :: "arena \<Rightarrow> int \<Rightarrow> (fault + ptr) \<times> arena" where
  "New a sz = alloc a sz"

definition Value :: "arena \<Rightarrow> byte list \<Rightarrow> (fault + ptr) \<times> arena" where
  "Value a v =
     (case alloc a (int (length v)) of
        (Inl f, a1) \<Rightarrow> (Inl f, a1)
      | (Inr out, a1) \<Rightarrow>
          (Inr out, a1\<lparr>heap := store_bytes (heap a1) (fst out) (snd out) v\<rparr>))"

text \<open>
  \<^verbatim>\<open>String\<close>. A Go string is a header, a data pointer and a length, over bytes nobody
  writes to; the argument is such a header and its bytes are read from the store when
  \<^verbatim>\<open>copy\<close> runs, after \<^verbatim>\<open>alloc\<close> has returned. The result is the header
  \<^verbatim>\<open>unsafe.String\<close> builds over the range allocated.
\<close>

type_synonym gostring = "ptr \<times> nat"

definition String :: "arena \<Rightarrow> gostring \<Rightarrow> (fault + gostring) \<times> arena" where
  "String a v =
     (case alloc a (int (snd v)) of
        (Inl f, a1) \<Rightarrow> (Inl f, a1)
      | (Inr arenaData, a1) \<Rightarrow>
          (Inr (arenaData, snd v),
           a1\<lparr>heap := store_bytes (heap a1) (fst arenaData) (snd arenaData)
                         (load_bytes (heap a1) (fst (fst v)) (snd (fst v)) (snd v))\<rparr>))"

text \<open>
  A slice header: the buffer and byte offset of its first element, its length and its
  capacity counted in elements. The element size \<^verbatim>\<open>unsafe.Sizeof(t)\<close> is the parameter
  \<open>sz\<close> of the functions below.
\<close>

record slice =
  sbuf :: nat
  soff :: nat
  slen :: int
  scap :: int

text \<open>\<^verbatim>\<open>copy\<close> of \<open>k\<close> elements, with the semantics of \<^verbatim>\<open>memmove\<close>.\<close>

definition copy_elems :: "store \<Rightarrow> nat \<Rightarrow> ptr \<Rightarrow> ptr \<Rightarrow> int \<Rightarrow> store" where
  "copy_elems h sz dst src k =
     store_bytes h (fst dst) (snd dst) (load_bytes h (fst src) (snd src) (nat k * sz))"

text \<open>The loop of \<^verbatim>\<open>growSlice\<close> (lines 101 to 103); \<open>None\<close> when it runs forever.\<close>

partial_function (option) growCap :: "int \<Rightarrow> int \<Rightarrow> int option" where
  "growCap newLen capacity =
     (if newLen \<ge> capacity then growCap newLen (wrap64 (capacity * 2)) else Some capacity)"

text \<open>
  \<^verbatim>\<open>growSlice\<close>. \<^verbatim>\<open>unsafe.Slice\<close> panics on a negative length and on a size that overflows
  the address space; \<^verbatim>\<open>out[len(slice):]\<close> and \<^verbatim>\<open>out[:newLen]\<close> are bounds-checked
  against the capacity; \<^verbatim>\<open>copy\<close> moves as many elements as the shorter operand has.
\<close>

definition growSlice ::
  "arena \<Rightarrow> nat \<Rightarrow> slice \<Rightarrow> slice \<Rightarrow> ((fault + slice) \<times> arena) option" where
  "growSlice a sz s elements =
     (let newLen = wrap64 (slen s + slen elements)
      in case growCap newLen (scap s) of
           None \<Rightarrow> None
         | Some capacity \<Rightarrow>
             Some (case alloc a (wrap64 (int sz * capacity)) of
                (Inl f, a1) \<Rightarrow> (Inl f, a1)
              | (Inr out, a1) \<Rightarrow>
                  if capacity < 0 \<or> 2 ^ 64 \<le> int sz * capacity then (Inl MakeFault, a1)
                  else
                    let h1 = copy_elems (heap a1) sz out (sbuf s, soff s)
                               (min capacity (slen s))
                    in if slen s < 0 \<or> capacity < slen s
                       then (Inl BoundsFault, a1\<lparr>heap := h1\<rparr>)
                       else
                         let h2 = copy_elems h1 sz (fst out, snd out + nat (slen s) * sz)
                                    (sbuf elements, soff elements)
                                    (min (capacity - slen s) (slen elements))
                         in if newLen < 0 \<or> capacity < newLen
                            then (Inl BoundsFault, a1\<lparr>heap := h2\<rparr>)
                            else (Inr \<lparr>sbuf = fst out, soff = snd out, slen = newLen,
                                       scap = capacity\<rparr>,
                                  a1\<lparr>heap := h2\<rparr>)))"

text \<open>
  \<^verbatim>\<open>Append\<close>. With enough capacity the built-in \<^verbatim>\<open>append\<close> stores the elements behind
  the old length of the same backing array; it panics when the new length has overflowed
  to a negative number.
\<close>

definition Append ::
  "arena \<Rightarrow> nat \<Rightarrow> slice \<Rightarrow> slice \<Rightarrow> ((fault + slice) \<times> arena) option" where
  "Append a sz s elements =
     (if scap s \<ge> wrap64 (slen s + slen elements) then
        (if wrap64 (slen s + slen elements) < 0 then Some (Inl MakeFault, a)
         else Some (Inr (s\<lparr>slen := wrap64 (slen s + slen elements)\<rparr>),
                    a\<lparr>heap := copy_elems (heap a) sz (sbuf s, soff s + nat (slen s) * sz)
                                 (sbuf elements, soff elements) (slen elements)\<rparr>))
      else growSlice a sz s elements)"


subsection \<open>Runs of operations\<close>

text \<open>A caller making one \<^verbatim>\<open>alloc\<close> call after the other, with the results in order.\<close>

fun allocs :: "arena \<Rightarrow> int list \<Rightarrow> (fault + ptr) list \<times> arena" where
  "allocs a [] = ([], a)"
| "allocs a (n # ns) =
     (case alloc a n of (r, a1) \<Rightarrow> (case allocs a1 ns of (rs, a2) \<Rightarrow> (r # rs, a2)))"

text \<open>The test of line 153: the call is served from the active chunk.\<close>

definition fast :: "arena \<Rightarrow> int \<Rightarrow> bool" where
  "fast a n \<longleftrightarrow> wrap64 (cursor a + n) < chunkSize a"

fun all_fast :: "arena \<Rightarrow> int list \<Rightarrow> bool" where
  "all_fast a [] = True"
| "all_fast a (n # ns) = (fast a n \<and> all_fast (snd (alloc a n)) ns)"

text \<open>
  The byte range of an allocation: the buffer, the first offset and the offset behind the
  last byte. \<open>ranges\<close> pairs the results of a run of calls with the sizes asked for and
  keeps the ranges of the calls that returned a pointer.
\<close>

type_synonym range = "nat \<times> int \<times> int"

fun ranges :: "(fault + ptr) list \<Rightarrow> int list \<Rightarrow> range list" where
  "ranges (Inr p # rs) (n # ns) = (fst p, int (snd p), int (snd p) + n) # ranges rs ns"
| "ranges (Inl f # rs) (n # ns) = ranges rs ns"
| "ranges rs ns = []"

definition disjoint :: "range \<Rightarrow> range \<Rightarrow> bool" where
  "disjoint r s \<longleftrightarrow>
     fst r \<noteq> fst s \<or> snd (snd r) \<le> fst (snd s) \<or> snd (snd s) \<le> fst (snd r)"

text \<open>A non-empty range of the active chunk, between 0 and \<^verbatim>\<open>chunkSize\<close>.\<close>

definition inside :: "arena \<Rightarrow> range \<Rightarrow> bool" where
  "inside a r \<longleftrightarrow>
     fst r = current a \<and> 0 \<le> fst (snd r) \<and> fst (snd r) < snd (snd r) \<and>
     snd (snd r) \<le> chunkSize a"

text \<open>The test of line 169: the expansion takes over an already provisioned slot.\<close>

definition reuses :: "arena \<Rightarrow> bool" where
  "reuses a \<longleftrightarrow> chunkCursor a < int (length (chunks a)) - 1"

text \<open>
  The states an arena goes through: calls of \<^verbatim>\<open>alloc\<close> with any \<^verbatim>\<open>int\<close>, calls of
  \<^verbatim>\<open>Reset\<close>, and the caller's writes into the store.
\<close>

inductive reaches :: "arena \<Rightarrow> arena \<Rightarrow> bool" for a0 :: arena where
  start: "reaches a0 a0"
| allocated: "reaches a0 a \<Longrightarrow> is_int64 n \<Longrightarrow> reaches a0 (snd (alloc a n))"
| reset: "reaches a0 a \<Longrightarrow> reaches a0 (snd (Reset a))"
| written: "reaches a0 a \<Longrightarrow> reaches a0 (a\<lparr>heap := store_bytes (heap a) b off bs\<rparr>)"

text \<open>
  What every such state satisfies: the chunk list is not empty and holds distinct buffers
  of \<^verbatim>\<open>chunkSize\<close> bytes, \<^verbatim>\<open>current\<close> is its last element, \<^verbatim>\<open>make\<close> has accepted the
  chunk size, and the chunk index is not behind the end of the list.
\<close>

definition wf :: "arena \<Rightarrow> bool" where
  "wf a \<longleftrightarrow>
     chunks a \<noteq> [] \<and> current a = last (chunks a) \<and> distinct (chunks a) \<and>
     (\<forall>b \<in> set (chunks a). b < length (heap a) \<and> int (length (heap a ! b)) = chunkSize a) \<and>
     0 \<le> chunkSize a \<and> chunkSize a \<le> maxAlloc \<and>
     int (length (chunks a)) - 1 \<le> chunkCursor a \<and> is_int64 (cursor a)"

text \<open>
  With a limit set, the chunk list has one chunk more than expansions have been made,
  up to the limit.
\<close>

definition counted :: "arena \<Rightarrow> bool" where
  "counted a \<longleftrightarrow> int (length (chunks a)) = min (chunkCursor a + 1) (limit a)"

text \<open>The arena \<^verbatim>\<open>Create(cs, WithLimit(l))\<close> returns in the empty store.\<close>

definition fresh :: "int \<Rightarrow> int \<Rightarrow> arena" where
  "fresh cs l =
     \<lparr>chunkSize = cs, limit = l, cursor = 0, chunkCursor = 0, current = 0, chunks = [0],
      heap = [replicate (nat cs) 0]\<rparr>"



text \<open>
  The arena \<^verbatim>\<open>Create(cs)\<close> returns in a store that holds the five bytes of the string
  literal \<^verbatim>\<open>"hello"\<close>.
\<close>

definition literal_arena :: "int \<Rightarrow> arena" where
  "literal_arena cs =
     \<lparr>chunkSize = cs, limit = 0, cursor = 0, chunkCursor = 0, current = 1, chunks = [1],
      heap = [[104, 101, 108, 108, 111], replicate (nat cs) 0]\<rparr>"

section \<open>Basic facts\<close>

lemma wrap64_id: "is_int64 x \<Longrightarrow> wrap64 x = x"
  by (simp add: wrap64_def is_int64_def)

lemma wrap64_int64: "is_int64 (wrap64 x)"
  by (simp add: wrap64_def is_int64_def)

text \<open>The low bound \<^verbatim>\<open>next-int64(n)\<close> of the fast path is the cursor before the add.\<close>

lemma wrap64_back: "is_int64 c \<Longrightarrow> wrap64 (wrap64 (c + n) - n) = c"
proof -
  assume c: "is_int64 c"
  have "(wrap64 (c + n) - n + 2 ^ 63) mod 2 ^ 64 = ((c + n + 2 ^ 63) mod 2 ^ 64 - n) mod 2 ^ 64"
    by (simp add: wrap64_def)
  also have "\<dots> = (c + n + 2 ^ 63 - n) mod 2 ^ 64"
    by (simp only: mod_diff_left_eq)
  also have "\<dots> = c + 2 ^ 63"
    using c by (simp add: is_int64_def)
  finally show ?thesis by (simp add: wrap64_def)
qed

text \<open>With one goroutine the two functions collapse into one case distinction.\<close>

lemma alloc_unfold:
  "alloc a n =
     (let next = wrap64 (cursor a + n); a1 = a\<lparr>cursor := next\<rparr>
      in if next < chunkSize a then (first_addr a1 (wrap64 (next - n)) next, a1)
         else if limit a \<noteq> 0 \<and> limit a \<le> chunkCursor a then (Inl CapacityExceeded, a1)
         else rollover (a\<lparr>cursor := n\<rparr>) n)"
  by (simp add: alloc.simps resize.simps Let_def)

section \<open>Well-formed states\<close>

lemma fold_apply_opt_fields:
  "chunkSize (fold apply_opt os a) = chunkSize a \<and> cursor (fold apply_opt os a) = cursor a \<and>
   chunkCursor (fold apply_opt os a) = chunkCursor a \<and> current (fold apply_opt os a) = current a \<and>
   chunks (fold apply_opt os a) = chunks a \<and> heap (fold apply_opt os a) = heap a"
proof (induction os arbitrary: a)
  case Nil
  show ?case by simp
next
  case (Cons x xs)
  show ?case by (cases x) (simp add: Cons.IH)
qed

lemma wf_Create: "Create h cs options = Inr a \<Longrightarrow> wf a"
  by (auto simp: Create_def make_bytes_def wf_def fold_apply_opt_fields is_int64_def
           split: if_splits)

lemma Create_first_chunk:
  "Create h cs options = Inr a \<Longrightarrow> chunks a = [length h] \<and> chunkSize a = cs \<and> cursor a = 0"
  by (auto simp: Create_def make_bytes_def fold_apply_opt_fields split: if_splits)

lemma wf_cursor: "wf a \<Longrightarrow> is_int64 c \<Longrightarrow> wf (a\<lparr>cursor := c\<rparr>)"
  by (simp add: wf_def)

lemma next_chunk_wf:
  "wf a \<Longrightarrow> next_chunk a =
     Inr (if int (length (chunks a)) < limit a
          then a\<lparr>current := length (heap a), chunks := chunks a @ [length (heap a)],
                 heap := heap a @ [replicate (nat (chunkSize a)) 0]\<rparr>
          else a)"
  by (simp add: next_chunk_def wf_def make_bytes_def)

lemma wf_next_chunk:
  "wf a \<Longrightarrow> next_chunk a = Inr a1 \<Longrightarrow>
     wf (a1\<lparr>chunkCursor := chunkCursor a1 + 1\<rparr>) \<and> chunkSize a1 = chunkSize a \<and>
     limit a1 = limit a \<and> cursor a1 = cursor a"
  by (auto simp: next_chunk_wf wf_def nth_append less_Suc_eq split: if_splits)

lemma wf_rollover: "wf a \<Longrightarrow> wf (snd (rollover a n))"
proof -
  assume w: "wf a"
  obtain a1 where n: "next_chunk a = Inr a1" using next_chunk_wf [OF w] by simp
  from wf_next_chunk [OF w n] show ?thesis
    by (simp add: rollover_def n Let_def)
qed

lemma wf_alloc: "wf a \<Longrightarrow> is_int64 n \<Longrightarrow> wf (snd (alloc a n))"
  by (simp add: alloc_unfold Let_def wf_cursor wrap64_int64 wf_rollover)

lemma length_zero_buf [simp]: "length (zero_buf h b) = length h"
  by (simp add: zero_buf_def)

lemma length_nth_zero_buf [simp]: "length (zero_buf h b ! c) = length (h ! c)"
  by (cases "c < length h") (simp_all add: zero_buf_def nth_list_update)

lemma length_zero_chunks [simp]: "length (zero_chunks h bs) = length h"
  unfolding zero_chunks_def by (induction bs arbitrary: h) simp_all

lemma length_nth_zero_chunks [simp]: "length (zero_chunks h bs ! c) = length (h ! c)"
  unfolding zero_chunks_def by (induction bs arbitrary: h) simp_all

lemma wf_Reset: "wf a \<Longrightarrow> wf (snd (Reset a))"
  by (cases "chunks a") (auto simp: Reset_def Let_def wf_def is_int64_def)

lemma length_store_bytes [simp]: "length (store_bytes h b off bs) = length h"
  by (simp add: store_bytes_def)

lemma length_nth_store_bytes [simp]: "length (store_bytes h b off bs ! c) = length (h ! c)"
  by (cases "c = b") (auto simp: store_bytes_def)

lemma wf_written: "wf a \<Longrightarrow> wf (a\<lparr>heap := store_bytes (heap a) b off bs\<rparr>)"
  by (simp add: wf_def)

lemma reaches_wf: "reaches a0 a \<Longrightarrow> wf a0 \<Longrightarrow> wf a"
  by (induction rule: reaches.induct) (simp_all add: wf_alloc wf_Reset wf_written)

text \<open>Every state an arena reaches from \<^verbatim>\<open>Create\<close> is well-formed.\<close>

lemma created_reaches_wf: "Create h cs options = Inr a0 \<Longrightarrow> reaches a0 a \<Longrightarrow> wf a"
  by (simp add: reaches_wf wf_Create)

lemma hd_chunks_rollover: "wf a \<Longrightarrow> hd (chunks (snd (rollover a n))) = hd (chunks a)"
proof -
  assume w: "wf a"
  then have "chunks a \<noteq> []" by (simp add: wf_def)
  then show ?thesis
    by (simp add: rollover_def next_chunk_wf [OF w] Let_def)
qed

lemma hd_chunks_alloc: "wf a \<Longrightarrow> is_int64 n \<Longrightarrow> hd (chunks (snd (alloc a n))) = hd (chunks a)"
  using hd_chunks_rollover [of "a\<lparr>cursor := n\<rparr>" n]
  by (simp add: alloc_unfold Let_def wf_cursor)

lemma hd_chunks_Reset: "wf a \<Longrightarrow> hd (chunks (snd (Reset a))) = hd (chunks a)"
  by (cases "chunks a") (simp_all add: Reset_def Let_def wf_def)

lemma reaches_hd_chunks:
  "reaches a0 a \<Longrightarrow> wf a0 \<Longrightarrow> hd (chunks a) = hd (chunks a0) \<and> chunkSize a = chunkSize a0"
proof (induction rule: reaches.induct)
  case start
  show ?case by simp
next
  case (allocated a n)
  then have w: "wf a" by (simp add: reaches_wf)
  have "chunkSize (snd (rollover (a\<lparr>cursor := n\<rparr>) n)) = chunkSize a"
    using wf_cursor [OF w allocated.hyps(2)]
    by (simp add: rollover_def next_chunk_wf Let_def)
  then have "chunkSize (snd (alloc a n)) = chunkSize a"
    by (simp add: alloc_unfold Let_def)
  with allocated w show ?case by (simp add: hd_chunks_alloc)
next
  case (reset a)
  then have w: "wf a" by (simp add: reaches_wf)
  have "chunkSize (snd (Reset a)) = chunkSize a"
    by (cases "chunks a") (simp_all add: Reset_def Let_def)
  with reset w show ?case by (simp add: hd_chunks_Reset)
next
  case (written a b off bs)
  then show ?case by simp
qed

section \<open>The reuse branch of the expansion\<close>

text \<open>
  Claim C10. In every state an arena reaches from \<^verbatim>\<open>Create\<close> by calls of \<^verbatim>\<open>alloc\<close> and
  \<^verbatim>\<open>Reset\<close> (and writes of the caller into the store), the chunk index is at least the
  chunk count minus one and the active chunk is the last chunk of the list; so the test
  of line 169 is false whenever an expansion evaluates it, whatever the cursor is then.
\<close>
theorem reuse_branch_dead:
  assumes "Create h cs options = Inr a0" and "reaches a0 a"
  shows "int (length (chunks a)) - 1 \<le> chunkCursor a \<and> current a = last (chunks a) \<and>
         (\<forall>c. \<not> reuses (a\<lparr>cursor := c\<rparr>))"
proof -
  have "wf a" using assms by (simp add: reaches_wf wf_Create)
  then show ?thesis by (simp add: wf_def reuses_def)
qed

theorem reuse_branch_dead_witness:
  "Create [] 100 [WithLimit 2] = Inr (fresh 100 2) \<and>
   reaches (fresh 100 2) (snd (alloc (fresh 100 2) 100)) \<and>
   chunks (snd (alloc (fresh 100 2) 100)) = [0, 1] \<and>
   chunkCursor (snd (alloc (fresh 100 2) 100)) = 1 \<and>
   current (snd (alloc (fresh 100 2) 100)) = 1 \<and>
   \<not> reuses (snd (alloc (fresh 100 2) 100))"
proof -
  have c: "Create [] 100 [WithLimit 2] = Inr (fresh 100 2)"
    by (simp add: Create_def make_bytes_def maxAlloc_def fresh_def)
  have r: "reaches (fresh 100 2) (snd (alloc (fresh 100 2) 100))"
    by (rule reaches.allocated [OF reaches.start]) (simp add: is_int64_def)
  have e: "chunks (snd (alloc (fresh 100 2) 100)) = [0, 1] \<and>
   chunkCursor (snd (alloc (fresh 100 2) 100)) = 1 \<and> current (snd (alloc (fresh 100 2) 100)) = 1"
    by (simp add: alloc_unfold fresh_def wrap64_def rollover_def next_chunk_def make_bytes_def
        maxAlloc_def Let_def first_addr_def buflen_def)
  from reuse_branch_dead [OF c r] c r e show ?thesis by (simp add: reuses_def)
qed

section \<open>Evaluating \<^verbatim>\<open>alloc\<close>\<close>

lemmas eval_defs = alloc_unfold fresh_def wrap64_def rollover_def next_chunk_def make_bytes_def
  maxAlloc_def Let_def first_addr_def buflen_def Create_def fast_def

lemma wrap64_add_cases:
  assumes "is_int64 c" and "is_int64 n"
  shows "(is_int64 (c + n) \<and> wrap64 (c + n) = c + n) \<or>
         (2 ^ 63 \<le> c + n \<and> wrap64 (c + n) = c + n - 2 ^ 64) \<or>
         (c + n < - (2 ^ 63) \<and> wrap64 (c + n) = c + n + 2 ^ 64)"
proof -
  consider "is_int64 (c + n)" | "2 ^ 63 \<le> c + n" | "c + n < - (2 ^ 63)"
    unfolding is_int64_def by linarith
  then show ?thesis
  proof cases
    case 1
    then show ?thesis by (simp add: wrap64_id)
  next
    case 2
    have "(c + n + 2 ^ 63) mod 2 ^ 64 = (c + n + 2 ^ 63 - 2 ^ 64) mod 2 ^ 64"
      by (rule minus_mod_self2 [symmetric])
    also have "\<dots> = c + n + 2 ^ 63 - 2 ^ 64"
      using 2 assms by (simp add: is_int64_def)
    finally show ?thesis using 2 by (simp add: wrap64_def)
  next
    case 3
    have "(c + n + 2 ^ 63) mod 2 ^ 64 = (c + n + 2 ^ 63 + 2 ^ 64) mod 2 ^ 64"
      by (rule mod_add_self2 [symmetric])
    also have "\<dots> = c + n + 2 ^ 63 + 2 ^ 64"
      using 3 assms by (simp add: is_int64_def)
    finally show ?thesis using 3 by (simp add: wrap64_def)
  qed
qed

text \<open>The result of an expansion whose compare-and-swap has succeeded.\<close>

lemma rollover_wf_result:
  assumes "wf a"
  shows "fst (rollover a n) =
           (if chunkSize a < n then Inl ObjectTooLarge
            else if 0 < n then Inr (current (snd (rollover a n)), 0) else Inl BoundsFault)"
proof -
  obtain a1 where n: "next_chunk a = Inr a1" using next_chunk_wf [OF assms] by simp
  from wf_next_chunk [OF assms n]
  have w: "wf (a1\<lparr>chunkCursor := chunkCursor a1 + 1\<rparr>)" and c: "chunkSize a1 = chunkSize a"
    by simp_all
  from w have b: "buflen (heap a1) (current a1) = chunkSize a1"
    by (simp add: wf_def buflen_def)
  show ?thesis
    using b c by (simp add: rollover_def n Let_def first_addr_def wrap64_def)
qed

text \<open>A call that fits below the end of the active chunk, the cursor not being negative.\<close>

lemma alloc_fast_eq:
  assumes "wf a" and "0 < n" and "0 \<le> cursor a" and "cursor a + n < chunkSize a"
  shows "alloc a n = (Inr (current a, nat (cursor a)), a\<lparr>cursor := cursor a + n\<rparr>)"
proof -
  have i: "is_int64 (cursor a + n)" "is_int64 (cursor a)"
    using assms by (simp_all add: wf_def is_int64_def maxAlloc_def)
  have b: "buflen (heap a) (current a) = chunkSize a"
    using assms(1) by (simp add: wf_def buflen_def)
  show ?thesis
    using assms(2-4) i b
    by (simp add: alloc_unfold Let_def wrap64_id first_addr_def)
qed

lemma wf_fresh: "0 \<le> cs \<Longrightarrow> cs \<le> maxAlloc \<Longrightarrow> wf (fresh cs l)"
  by (simp add: wf_def fresh_def is_int64_def)

text \<open>With the limit 0 no call ever changes the chunk list.\<close>

lemma limit_zero_chunks: "limit a = 0 \<Longrightarrow> chunks (snd (alloc a n)) = chunks a"
  by (simp add: alloc_unfold rollover_def next_chunk_def Let_def split: sum.splits)

text \<open>What \<^verbatim>\<open>alloc\<close> does with a size above the chunk size, and with a size that is not positive.\<close>

lemma alloc_out_of_range:
  assumes "wf a" and "is_int64 n"
  shows "(chunkSize a < n \<longrightarrow>
            fst (alloc a n) =
              Inl (if fast a n then BoundsFault
                   else if limit a \<noteq> 0 \<and> limit a \<le> chunkCursor a then CapacityExceeded
                   else ObjectTooLarge)) \<and>
         (chunkSize a < n \<and> 0 \<le> cursor a \<and> cursor a + n < 2 ^ 63 \<longrightarrow> \<not> fast a n) \<and>
         (n \<le> 0 \<longrightarrow>
            fst (alloc a n) =
              Inl (if \<not> fast a n \<and> limit a \<noteq> 0 \<and> limit a \<le> chunkCursor a
                   then CapacityExceeded else BoundsFault))"
proof -
  have c: "is_int64 (cursor a)" and cs: "0 \<le> chunkSize a"
    using assms(1) by (simp_all add: wf_def)
  have b: "buflen (heap a) (current a) = chunkSize a"
    using assms(1) by (simp add: wf_def buflen_def)
  note k = wrap64_add_cases [OF c assms(2)]
  have w: "wf (a\<lparr>cursor := n\<rparr>)" using assms by (rule wf_cursor)
  have fastfault: "fast a n \<Longrightarrow> chunkSize a < n \<or> n \<le> 0 \<Longrightarrow>
      first_addr (a\<lparr>cursor := wrap64 (cursor a + n)\<rparr>) (cursor a) (wrap64 (cursor a + n))
        = Inl BoundsFault"
    using k c assms(2) cs by (auto simp: first_addr_def b fast_def is_int64_def)
  have slow: "fst (rollover (a\<lparr>cursor := n\<rparr>) n) =
           (if chunkSize a < n then Inl ObjectTooLarge
            else if 0 < n then Inr (current (snd (rollover (a\<lparr>cursor := n\<rparr>) n)), 0)
            else Inl BoundsFault)"
    using rollover_wf_result [OF w, of n] by simp
  have 1: "chunkSize a < n \<longrightarrow>
            fst (alloc a n) =
              Inl (if fast a n then BoundsFault
                   else if limit a \<noteq> 0 \<and> limit a \<le> chunkCursor a then CapacityExceeded
                   else ObjectTooLarge)"
    using fastfault slow
    by (auto simp: alloc_unfold Let_def wrap64_back [OF c] fast_def)
  have 2: "chunkSize a < n \<and> 0 \<le> cursor a \<and> cursor a + n < 2 ^ 63 \<longrightarrow> \<not> fast a n"
    using k by (auto simp: fast_def is_int64_def)
  have 3: "n \<le> 0 \<longrightarrow>
            fst (alloc a n) =
              Inl (if \<not> fast a n \<and> limit a \<noteq> 0 \<and> limit a \<le> chunkCursor a
                   then CapacityExceeded else BoundsFault)"
    using fastfault slow cs
    by (auto simp: alloc_unfold Let_def wrap64_back [OF c] fast_def)
  from 1 2 3 show ?thesis by blast
qed

section \<open>An arena without limit\<close>

text \<open>
  Claim C1 says that with the limit 0 an expansion appends a new chunk, so that the chunk
  count grows and every allocation after a rollover comes from a new chunk. The code
  appends only when \<^verbatim>\<open>len(a.chunks) < a.limit\<close> (line 171), which is false for the limit 0:
  in the arena \<^verbatim>\<open>Create(100)\<close> the second of two 60-byte allocations goes through the
  expansion, the chunk list stays at one chunk, and the call returns the address the first
  call has returned.
\<close>

theorem unbounded_arena_never_grows:
  "Create [] 100 [] = Inr (fresh 100 0) \<and>
   allocs (fresh 100 0) [60, 60] =
     ([Inr (0, 0), Inr (0, 0)], (fresh 100 0)\<lparr>cursor := 60, chunkCursor := 1\<rparr>)"
  by (simp add: eval_defs)

section \<open>The fast path\<close>

text \<open>
  Claim C2 as stated: an allocation whose cursor after the add is at most \<^verbatim>\<open>chunkSize\<close>
  is served without expansion. It fails when the cursor after the add equals the chunk
  size: the test of line 153 is strict. The 100-byte allocation in the arena
  \<^verbatim>\<open>Create(100)\<close> enters \<^verbatim>\<open>resize\<close> and advances the chunk index; with a limit of 2 it is
  served from a second chunk.
\<close>

theorem exact_fit_expands:
  "Create [] 100 [] = Inr (fresh 100 0) \<and>
   cursor (fresh 100 0) + 100 \<le> chunkSize (fresh 100 0) \<and>
   \<not> fast (fresh 100 0) 100 \<and>
   alloc (fresh 100 0) 100 = resize ((fresh 100 0)\<lparr>cursor := 100\<rparr>) 100 100 \<and>
   chunkCursor (snd (alloc (fresh 100 0) 100)) = 1 \<and>
   fst (alloc (fresh 100 2) 100) = Inr (1, 0) \<and>
   chunks (snd (alloc (fresh 100 2) 100)) = [0, 1]"
  by (simp add: eval_defs resize.simps)

text \<open>
  Claim C2 as amended: for every size \<open>n > 0\<close>, with the cursor not negative before the
  add: when the cursor after the add, \<open>end\<close>, is strictly below \<^verbatim>\<open>chunkSize\<close>, the call
  takes the fast path, returns the address of the range from \<open>end - n\<close> to \<open>end\<close> of the
  active chunk, and changes nothing but the cursor; when \<open>end\<close> equals \<^verbatim>\<open>chunkSize\<close>, the
  call leaves the fast path and enters \<^verbatim>\<open>resize\<close>.
\<close>

theorem alloc_fast_path:
  assumes "wf a" and "0 < n" and "0 \<le> cursor a"
  shows "(cursor a + n < chunkSize a \<longrightarrow>
            fast a n \<and>
            alloc a n = (Inr (current a, nat (cursor a + n - n)), a\<lparr>cursor := cursor a + n\<rparr>)) \<and>
         (cursor a + n = chunkSize a \<longrightarrow>
            \<not> fast a n \<and>
            alloc a n = resize (a\<lparr>cursor := cursor a + n\<rparr>) n (cursor a + n))"
proof (intro conjI impI)
  assume l: "cursor a + n < chunkSize a"
  then have "is_int64 (cursor a + n)"
    using assms by (simp add: wf_def is_int64_def maxAlloc_def)
  then show "fast a n" using l by (simp add: fast_def wrap64_id)
  show "alloc a n = (Inr (current a, nat (cursor a + n - n)), a\<lparr>cursor := cursor a + n\<rparr>)"
    using alloc_fast_eq [OF assms(1,2,3) l] by simp
next
  assume e: "cursor a + n = chunkSize a"
  then have "is_int64 (cursor a + n)"
    using assms by (simp add: wf_def is_int64_def maxAlloc_def)
  then have w: "wrap64 (cursor a + n) = cursor a + n" by (rule wrap64_id)
  show "\<not> fast a n" unfolding fast_def w using e by simp
  show "alloc a n = resize (a\<lparr>cursor := cursor a + n\<rparr>) n (cursor a + n)"
    unfolding alloc.simps [of a n] Let_def w using e by simp
qed

theorem alloc_fast_path_witness:
  "wf (fresh 100 0) \<and> fast (fresh 100 0) 99 \<and>
   alloc (fresh 100 0) 99 = (Inr (0, 0), (fresh 100 0)\<lparr>cursor := 99\<rparr>) \<and>
   \<not> fast (fresh 100 0) 100 \<and>
   alloc (fresh 100 0) 100 = resize ((fresh 100 0)\<lparr>cursor := 100\<rparr>) 100 100"
proof -
  have w: "wf (fresh 100 0)"
    by (simp add: wf_fresh maxAlloc_def)
  from alloc_fast_path [OF w, of 99] alloc_fast_path [OF w, of 100] w show ?thesis
    by (simp add: fresh_def)
qed

section \<open>Sizes outside the precondition\<close>

text \<open>
  Claim C3 as stated: every size that is not positive or exceeds \<^verbatim>\<open>chunkSize\<close> faults with
  ObjectTooLarge and nothing else. In the arena \<^verbatim>\<open>Create(100)\<close> the sizes 0 and -1 fault
  in the bounds checks of the slice expression, and in an arena with limit 1 that has
  expanded once the size 200 faults with CapacityExceeded: the limit is tested before
  the size.
\<close>

theorem not_object_too_large:
  "fst (alloc (fresh 100 0) 0) = Inl BoundsFault \<and>
   fst (alloc (fresh 100 0) (- 1)) = Inl BoundsFault \<and>
   fst (alloc (snd (alloc (fresh 100 1) 100)) 200) = Inl CapacityExceeded"
  by (simp add: eval_defs)

text \<open>
  Claim C3 as amended: in a well-formed arena every size above \<^verbatim>\<open>chunkSize\<close> faults;
  the fault is ObjectTooLarge, raised by the expansion, unless the chunk index has
  reached a nonzero limit (then it is CapacityExceeded) or the call stays on the fast
  path (then it is a bounds fault), which needs a negative cursor or an add that
  overflows. Every size that is not positive faults as well, never with ObjectTooLarge:
  with CapacityExceeded when the call expands at the limit, with a bounds fault otherwise.
\<close>

theorem out_of_range_sizes_fault:
  assumes "wf a" and "is_int64 n"
  shows "(chunkSize a < n \<longrightarrow>
            fst (alloc a n) =
              Inl (if fast a n then BoundsFault
                   else if limit a \<noteq> 0 \<and> limit a \<le> chunkCursor a then CapacityExceeded
                   else ObjectTooLarge)) \<and>
         (chunkSize a < n \<and> 0 \<le> cursor a \<and> cursor a + n < 2 ^ 63 \<longrightarrow> \<not> fast a n) \<and>
         (n \<le> 0 \<longrightarrow>
            fst (alloc a n) =
              Inl (if \<not> fast a n \<and> limit a \<noteq> 0 \<and> limit a \<le> chunkCursor a
                   then CapacityExceeded else BoundsFault))"
  using assms by (rule alloc_out_of_range)

theorem out_of_range_sizes_fault_witness:
  "wf (fresh 100 0) \<and> is_int64 200 \<and> is_int64 0 \<and>
   fst (alloc (fresh 100 0) 200) = Inl ObjectTooLarge \<and>
   fst (alloc (fresh 100 0) 0) = Inl BoundsFault"
proof -
  have w: "wf (fresh 100 0)"
    by (simp add: wf_def fresh_def maxAlloc_def is_int64_def)
  have i: "is_int64 200" "is_int64 0" by (simp_all add: is_int64_def)
  from out_of_range_sizes_fault [OF w i(1)] out_of_range_sizes_fault [OF w i(2)] w i
  show ?thesis by (simp add: fresh_def fast_def wrap64_def)
qed

section \<open>The chunk limit\<close>

text \<open>
  Claim C4 says that once \<open>L\<close> chunks are filled the allocation that needs one more faults
  with CapacityExceeded, the chunk count staying at \<open>L\<close>. The guard of line 162 compares
  the chunk index, not the chunk count, with the limit. With limit 2 and chunks of 100
  bytes, the third 60-byte allocation finds both chunks used, does not fault, and is
  given the range of the second allocation again; the fault comes one expansion later.
  The chunk count is 2 throughout.
\<close>

theorem limit_overrun_evaluated:
  "Create [] 100 [WithLimit 2] = Inr (fresh 100 2) \<and>
   fst (allocs (fresh 100 2) [60, 60, 60, 60]) =
     [Inr (0, 0), Inr (1, 0), Inr (1, 0), Inl CapacityExceeded] \<and>
   chunks (snd (allocs (fresh 100 2) [60, 60, 60])) = [0, 1] \<and>
   chunks (snd (allocs (fresh 100 2) [60, 60, 60, 60])) = [0, 1]"
  by (simp add: eval_defs)

section \<open>Allocations served from one chunk\<close>

lemma alloc_fast_step:
  assumes "wf a" and "0 < n" and "n \<le> chunkSize a" and "fast a n"
  shows "snd (alloc a n) = a\<lparr>cursor := wrap64 (cursor a + n)\<rparr>"
    and "fst (alloc a n) = Inr p \<Longrightarrow>
           p = (current a, nat (cursor a)) \<and> 0 \<le> cursor a \<and> wrap64 (cursor a + n) = cursor a + n"
    and "cursor a < chunkSize a \<Longrightarrow> wrap64 (cursor a + n) = cursor a + n"
    and "0 \<le> cursor a \<Longrightarrow> cursor a < chunkSize a \<Longrightarrow>
           fst (alloc a n) = Inr (current a, nat (cursor a))"
proof -
  have c: "is_int64 (cursor a)" and m: "chunkSize a \<le> 2 ^ 48"
    using assms(1) by (simp_all add: wf_def maxAlloc_def)
  have i: "is_int64 n" using assms(2,3) m by (simp add: is_int64_def)
  have b: "buflen (heap a) (current a) = chunkSize a"
    using assms(1) by (simp add: wf_def buflen_def)
  note k = wrap64_add_cases [OF c i]
  have f: "wrap64 (cursor a + n) < chunkSize a" using assms(4) by (simp add: fast_def)
  have e: "alloc a n = (first_addr (a\<lparr>cursor := wrap64 (cursor a + n)\<rparr>) (cursor a)
             (wrap64 (cursor a + n)), a\<lparr>cursor := wrap64 (cursor a + n)\<rparr>)"
    using f by (simp add: alloc_unfold Let_def wrap64_back [OF c])
  show "snd (alloc a n) = a\<lparr>cursor := wrap64 (cursor a + n)\<rparr>" by (simp add: e)
  show "fst (alloc a n) = Inr p \<Longrightarrow>
           p = (current a, nat (cursor a)) \<and> 0 \<le> cursor a \<and> wrap64 (cursor a + n) = cursor a + n"
    using k assms(2) c i by (auto simp: e first_addr_def is_int64_def split: if_splits)
  show w: "cursor a < chunkSize a \<Longrightarrow> wrap64 (cursor a + n) = cursor a + n"
    using k assms(2,3) m c by (auto simp: is_int64_def)
  show "0 \<le> cursor a \<Longrightarrow> cursor a < chunkSize a \<Longrightarrow>
           fst (alloc a n) = Inr (current a, nat (cursor a))"
    using w f assms(2) by (simp add: e first_addr_def b)
qed

lemma fst_allocs_Cons:
  "fst (allocs a (n # ns)) = fst (alloc a n) # fst (allocs (snd (alloc a n)) ns)"
  by (simp split: prod.splits)

lemma snd_allocs_Cons: "snd (allocs a (n # ns)) = snd (allocs (snd (alloc a n)) ns)"
  by (simp split: prod.splits)

lemma ranges_fast:
  assumes "wf a" and "\<forall>n \<in> set ns. 0 < n \<and> n \<le> chunkSize a" and "all_fast a ns"
  shows "(\<forall>r \<in> set (ranges (fst (allocs a ns)) ns).
            inside a r \<and> (cursor a < chunkSize a \<longrightarrow> cursor a \<le> fst (snd r))) \<and>
         sorted_wrt (\<lambda>r s. snd (snd r) \<le> fst (snd s)) (ranges (fst (allocs a ns)) ns) \<and>
         length (fst (allocs a ns)) = length ns \<and>
         (0 \<le> cursor a \<and> cursor a < chunkSize a \<longrightarrow>
            length (ranges (fst (allocs a ns)) ns) = length ns)"
  using assms
proof (induction ns arbitrary: a)
  case Nil
  show ?case by simp
next
  case (Cons n ns)
  let ?a1 = "a\<lparr>cursor := wrap64 (cursor a + n)\<rparr>"
  have n: "0 < n" "n \<le> chunkSize a" and f: "fast a n" using Cons.prems by simp_all
  note st = alloc_fast_step [OF Cons.prems(1) n f]
  have s: "snd (alloc a n) = ?a1" by (rule st(1))
  have w1: "wf ?a1" using Cons.prems(1) by (simp add: wf_cursor wrap64_int64)
  have c1: "cursor ?a1 < chunkSize ?a1" using f by (simp add: fast_def)
  have ih: "(\<forall>r \<in> set (ranges (fst (allocs ?a1 ns)) ns).
            inside ?a1 r \<and> (cursor ?a1 < chunkSize ?a1 \<longrightarrow> cursor ?a1 \<le> fst (snd r))) \<and>
         sorted_wrt (\<lambda>r s. snd (snd r) \<le> fst (snd s)) (ranges (fst (allocs ?a1 ns)) ns) \<and>
         length (fst (allocs ?a1 ns)) = length ns \<and>
         (0 \<le> cursor ?a1 \<and> cursor ?a1 < chunkSize ?a1 \<longrightarrow>
            length (ranges (fst (allocs ?a1 ns)) ns) = length ns)"
    using Cons.prems s by (intro Cons.IH [OF w1]) simp_all
  have al: "fst (allocs a (n # ns)) = fst (alloc a n) # fst (allocs ?a1 ns)"
    by (simp only: fst_allocs_Cons s)
  show ?case
  proof (cases "fst (alloc a n)")
    case (Inl e)
    have nn: "\<not> (0 \<le> cursor a \<and> cursor a < chunkSize a)"
      using st(4) Inl by auto
    have "cursor a < chunkSize a \<Longrightarrow> cursor a \<le> cursor ?a1"
      using st(3) n by simp
    with ih c1 nn show ?thesis
      by (auto simp: al Inl inside_def simp del: allocs.simps)
  next
    case (Inr p)
    from st(2) [OF Inr] have p: "p = (current a, nat (cursor a))" and c0: "0 \<le> cursor a"
      and e: "wrap64 (cursor a + n) = cursor a + n" by simp_all
    have h: "inside a (current a, cursor a, cursor a + n)"
      using c0 n c1 e by (simp add: inside_def)
    from ih c1 e have t: "\<forall>r \<in> set (ranges (fst (allocs ?a1 ns)) ns).
        inside a r \<and> cursor a + n \<le> fst (snd r)"
      by (auto simp: inside_def)
    show ?thesis
      using ih h t c0 n c1 e by (auto simp: al Inr p simp del: allocs.simps)
  qed
qed

text \<open>
  Claim C8 as stated: calls with sizes between 1 and \<^verbatim>\<open>chunkSize\<close>, made while the active
  chunk is not exhausted, return ranges that do not overlap. In the arena \<^verbatim>\<open>Create(100)\<close>
  the first of two 50-byte allocations leaves 50 bytes of the chunk free; the second
  fits exactly, fails the strict test of line 153, expands without a new chunk and is
  given the range of the first.
\<close>

theorem exact_fit_overlaps:
  "Create [] 100 [] = Inr (fresh 100 0) \<and> 0 < (50::int) \<and> 50 \<le> chunkSize (fresh 100 0) \<and>
   fast (fresh 100 0) 50 \<and> cursor (snd (alloc (fresh 100 0) 50)) = 50 \<and>
   \<not> fast (snd (alloc (fresh 100 0) 50)) 50 \<and>
   fst (allocs (fresh 100 0) [50, 50]) = [Inr (0, 0), Inr (0, 0)] \<and>
   ranges (fst (allocs (fresh 100 0) [50, 50])) [50, 50] = [(0, 0, 50), (0, 0, 50)] \<and>
   \<not> disjoint (0, 0, 50) (0, 0, 50) \<and>
   \<not> sorted_wrt disjoint (ranges (fst (allocs (fresh 100 0) [50, 50])) [50, 50])"
  by (simp add: eval_defs disjoint_def)

text \<open>
  Claim C8 as amended. Successive calls of \<^verbatim>\<open>alloc\<close> with sizes between 1 and
  \<^verbatim>\<open>chunkSize\<close>, each passing the test of line 153 (the cursor after the add is strictly
  below \<^verbatim>\<open>chunkSize\<close>), return ranges that lie inside the active chunk, between 0 and
  \<^verbatim>\<open>chunkSize\<close>, and that do not overlap: of two ranges the earlier one ends where the
  later one begins, or before. When the cursor starts inside the chunk, every one of the
  calls returns a range.
\<close>

theorem fast_allocations_disjoint:
  assumes "wf a" and "\<forall>n \<in> set ns. 0 < n \<and> n \<le> chunkSize a" and "all_fast a ns"
  shows "(\<forall>r \<in> set (ranges (fst (allocs a ns)) ns). inside a r) \<and>
         sorted_wrt disjoint (ranges (fst (allocs a ns)) ns) \<and>
         (0 \<le> cursor a \<and> cursor a < chunkSize a \<longrightarrow>
            length (ranges (fst (allocs a ns)) ns) = length ns)"
proof -
  note r = ranges_fast [OF assms]
  have "sorted_wrt disjoint (ranges (fst (allocs a ns)) ns)"
    by (rule sorted_wrt_mono_rel [of _ "\<lambda>r s. snd (snd r) \<le> fst (snd s)"])
       (use r in \<open>simp_all add: disjoint_def\<close>)
  with r show ?thesis by blast
qed

theorem fast_allocations_disjoint_witness:
  "wf (fresh 100 0) \<and> 0 < (30::int) \<and> 30 \<le> chunkSize (fresh 100 0) \<and>
   all_fast (fresh 100 0) [30, 30, 30] \<and>
   ranges (fst (allocs (fresh 100 0) [30, 30, 30])) [30, 30, 30] =
     [(0, 0, 30), (0, 30, 60), (0, 60, 90)] \<and>
   sorted_wrt disjoint [(0, 0, 30), (0, 30, 60), (0, 60, 90)] \<and>
   inside (fresh 100 0) (0, 0, 30) \<and> inside (fresh 100 0) (0, 30, 60) \<and>
   inside (fresh 100 0) (0, 60, 90)"
proof -
  have w: "wf (fresh 100 0)" by (simp add: wf_fresh maxAlloc_def)
  have s: "\<forall>n \<in> set [30, 30, 30]. 0 < n \<and> n \<le> chunkSize (fresh 100 0)"
    by (simp add: fresh_def)
  have f: "all_fast (fresh 100 0) [30, 30, 30]" by (simp add: eval_defs)
  have e: "ranges (fst (allocs (fresh 100 0) [30, 30, 30])) [30, 30, 30] =
     [(0, 0, 30), (0, 30, 60), (0, 60, 90)]" by (simp add: eval_defs)
  from fast_allocations_disjoint [OF w s f] w s f e show ?thesis by simp
qed

section \<open>The capacity loop of \<^verbatim>\<open>growSlice\<close>\<close>

lemma growCap_zero_aux: "growCap n c = Some y \<Longrightarrow> 0 \<le> n \<longrightarrow> c \<noteq> 0"
proof (rule growCap.raw_induct [where P = "\<lambda>n c y. 0 \<le> n \<longrightarrow> c \<noteq> 0"])
  fix f :: "int \<Rightarrow> int \<Rightarrow> int option" and n c y
  assume ih: "\<And>n c y. f n c = Some y \<Longrightarrow> 0 \<le> n \<longrightarrow> c \<noteq> 0"
    and b: "(if c \<le> n then f n (wrap64 (c * 2)) else Some c) = Some y"
  show "0 \<le> n \<longrightarrow> c \<noteq> 0"
  proof (intro impI notI)
    assume "0 \<le> n" and "c = 0"
    with b have "f n (wrap64 0) = Some y" by simp
    then have "f n 0 = Some y" by (simp add: wrap64_def)
    with ih \<open>0 \<le> n\<close> show False by blast
  qed
qed

lemma growCap_zero: "0 \<le> n \<Longrightarrow> growCap n 0 = None"
  using growCap_zero_aux [of n 0] by (cases "growCap n 0") auto

lemma growCap_step: "c \<le> n \<Longrightarrow> growCap n c = growCap n (wrap64 (c * 2))"
  by (subst growCap.simps) simp

lemma growCap_stop: "n < c \<Longrightarrow> growCap n c = Some c"
  by (subst growCap.simps) simp

text \<open>The loop stops at the first doubling above the new length, when that one fits.\<close>

lemma growCap_terminates:
  "0 < c \<Longrightarrow> n < c * 2 ^ k \<Longrightarrow> c * 2 ^ k < 2 ^ 63 \<Longrightarrow>
   \<exists>j \<le> k. growCap n c = Some (c * 2 ^ j) \<and> n < c * 2 ^ j \<and> (\<forall>i < j. c * 2 ^ i \<le> n)"
proof (induction k arbitrary: c)
  case 0
  then have "growCap n c = Some c" by (simp add: growCap_stop)
  with 0 show ?case by simp
next
  case (Suc k)
  show ?case
  proof (cases "n < c")
    case True
    then have "growCap n c = Some c" by (simp add: growCap_stop)
    with True show ?thesis by (intro exI [of _ 0]) simp
  next
    case False
    have le: "c * 2 \<le> c * 2 ^ Suc k" using Suc.prems(1) by simp
    have p: "(0::int) < 2 ^ 63" by simp
    have i: "is_int64 (c * 2)"
      unfolding is_int64_def using Suc.prems(1,3) le p by linarith
    have s: "growCap n c = growCap n (c * 2)"
      using False growCap_step [of c n] by (simp add: wrap64_id [OF i])
    have "\<exists>j \<le> k. growCap n (c * 2) = Some (c * 2 * 2 ^ j) \<and> n < c * 2 * 2 ^ j \<and>
             (\<forall>i < j. c * 2 * 2 ^ i \<le> n)"
      using Suc.prems by (intro Suc.IH) (simp_all add: mult.assoc)
    then obtain j where j: "j \<le> k" "growCap n (c * 2) = Some (c * 2 * 2 ^ j)"
      "n < c * 2 * 2 ^ j" "\<forall>i < j. c * 2 * 2 ^ i \<le> n" by blast
    have "\<forall>i < Suc j. c * 2 ^ i \<le> n"
    proof (intro allI impI)
      fix i assume "i < Suc j"
      show "c * 2 ^ i \<le> n"
      proof (cases i)
        case 0
        with False show ?thesis by simp
      next
        case (Suc i')
        with \<open>i < Suc j\<close> j(4) have "c * 2 * 2 ^ i' \<le> n" by simp
        with Suc show ?thesis by (simp add: mult.assoc)
      qed
    qed
    with j s show ?thesis
      by (intro exI [of _ "Suc j"]) (simp add: mult.assoc)
  qed
qed

text \<open>Below \<open>2 ^ 62\<close> the first doubling above the new length always fits.\<close>

lemma growCap_below:
  assumes "0 < c" and "c < 2 ^ 63" and "n < 2 ^ 62"
  shows "\<exists>j. growCap n c = Some (c * 2 ^ j) \<and> n < c * 2 ^ j \<and> (\<forall>i < j. c * 2 ^ i \<le> n)"
proof (cases "n < c")
  case True
  then have "growCap n c = Some c" by (rule growCap_stop)
  with True show ?thesis by (intro exI [of _ 0]) simp
next
  case False
  define k where "k = (LEAST k. n < c * 2 ^ k)"
  have "(2::int) ^ 62 \<le> c * 2 ^ 62" using assms(1) by simp
  then have ex: "n < c * 2 ^ (62::nat)" using assms(3) by linarith
  then have k: "n < c * 2 ^ k" unfolding k_def by (rule LeastI)
  have "k \<noteq> 0" using k False by (cases k) auto
  then obtain k' where k': "k = Suc k'" by (cases k) auto
  have "\<not> n < c * 2 ^ k'"
    using not_less_Least [of k' "\<lambda>k. n < c * 2 ^ k"] k' by (simp add: k_def)
  then have "c * 2 ^ k < 2 ^ 63" using assms(3) k' by simp
  with assms(1) k growCap_terminates [of c n k] show ?thesis by blast
qed


text \<open>
  Claim C6 as stated: the loop terminates for every slice whose capacity is not zero.
  It fails for a full slice of \<open>2 ^ 62\<close> elements (a slice of a zero-sized element
  type can be that long) to which one element is appended: the first doubling of the
  capacity overflows to \<open>- (2 ^ 63)\<close>, the second to 0, and \<^verbatim>\<open>Append\<close> does not return.
\<close>

theorem doubling_overflows:
  "growCap (2 ^ 62 + 1) (2 ^ 62) = None \<and>
   Append (fresh 100 0) 0 \<lparr>sbuf = 0, soff = 0, slen = 2 ^ 62, scap = 2 ^ 62\<rparr>
     \<lparr>sbuf = 0, soff = 0, slen = 1, scap = 1\<rparr> = None"
proof -
  have "growCap (2 ^ 62 + 1) (2 ^ 62) = growCap (2 ^ 62 + 1) (wrap64 (2 ^ 62 * 2))"
    by (rule growCap_step) simp
  also have "wrap64 (2 ^ 62 * 2) = - (2 ^ 63)" by (simp add: wrap64_def)
  also have "growCap (2 ^ 62 + 1) (- (2 ^ 63)) = growCap (2 ^ 62 + 1) (wrap64 (- (2 ^ 63) * 2))"
    by (rule growCap_step) simp
  also have "wrap64 (- (2 ^ 63) * 2) = 0" by (simp add: wrap64_def)
  also have "growCap (2 ^ 62 + 1) 0 = None" by (rule growCap_zero) simp
  finally have g: "growCap (2 ^ 62 + 1) (2 ^ 62) = None" .
  then have g': "growCap 4611686018427387905 4611686018427387904 = None" by simp
  have "wrap64 4611686018427387905 = 4611686018427387905" by (simp add: wrap64_def)
  then show ?thesis using g
    by (simp add: Append_def growSlice_def g')
qed

text \<open>
  Claim C6 as amended: for every capacity that is positive and every new length below
  \<open>2 ^ 62\<close> the loop terminates and yields the smallest doubling of the capacity that
  strictly exceeds the new length; when the starting capacity is zero (and the new
  length is not negative) the loop does not terminate.
\<close>

theorem growCap_doubling:
  "(0 < c \<and> c < 2 ^ 63 \<and> n < 2 ^ 62 \<longrightarrow>
      (\<exists>j. growCap n c = Some (c * 2 ^ j) \<and> n < c * 2 ^ j \<and> (\<forall>i < j. c * 2 ^ i \<le> n))) \<and>
   (0 \<le> n \<longrightarrow> growCap n 0 = None)"
  using growCap_below [of c n] growCap_zero [of n] by blast

theorem growCap_doubling_witness:
  "(0::int) < 10 \<and> (10::int) < 2 ^ 63 \<and> (21::int) < 2 ^ 62 \<and>
   (\<exists>j. growCap 21 10 = Some (10 * 2 ^ j) \<and> 21 < (10::int) * 2 ^ j \<and>
        (\<forall>i < j. (10::int) * 2 ^ i \<le> 21)) \<and>
   growCap 21 10 = Some 40 \<and> growCap 1 0 = None"
proof -
  have e: "growCap 21 10 = Some 40"
    by (simp add: growCap.simps [of 21 10] growCap.simps [of 21 20] growCap.simps [of 21 40]
        wrap64_def)
  from growCap_doubling [of 10 21] growCap_doubling [of 0 1] e show ?thesis by simp
qed

section \<open>Bytes in the store\<close>

lemma length_load_bytes:
  "off + n \<le> length (h ! b) \<Longrightarrow> length (load_bytes h b off n) = n"
  by (simp add: load_bytes_def)

lemma load_store_same:
  "b < length h \<Longrightarrow> off + length bs \<le> length (h ! b) \<Longrightarrow>
   load_bytes (store_bytes h b off bs) b off (length bs) = bs"
  by (simp add: load_bytes_def store_bytes_def)






section \<open>What a successful \<^verbatim>\<open>alloc\<close> returns\<close>

lemma chunkSize_rollover: "wf a \<Longrightarrow> chunkSize (snd (rollover a n)) = chunkSize a"
  by (simp add: rollover_def next_chunk_wf Let_def)

lemma alloc_result:
  assumes "wf a" and "is_int64 n" and "alloc a n = (Inr p, a')"
  shows "0 < n \<and> wf a' \<and> fst p = current a' \<and> current a' \<in> set (chunks a') \<and>
         int (snd p) + n \<le> chunkSize a' \<and> fst p < length (heap a') \<and>
         int (length (heap a' ! fst p)) = chunkSize a'"
proof -
  have a': "a' = snd (alloc a n)" using assms(3) by simp
  have w': "wf a'" unfolding a' using assms(1,2) by (rule wf_alloc)
  then have cur: "current a' \<in> set (chunks a')" by (simp add: wf_def)
  with w' have buf: "current a' < length (heap a')"
    "int (length (heap a' ! current a')) = chunkSize a'" by (simp_all add: wf_def)
  have c: "is_int64 (cursor a)" using assms(1) by (simp add: wf_def)
  have b: "buflen (heap a) (current a) = chunkSize a"
    using assms(1) by (simp add: wf_def buflen_def)
  note k = wrap64_add_cases [OF c assms(2)]
  have w: "wf (a\<lparr>cursor := n\<rparr>)" using assms(1,2) by (rule wf_cursor)
  have "0 < n \<and> fst p = current a' \<and> int (snd p) + n \<le> chunkSize a'"
  proof (cases "wrap64 (cursor a + n) < chunkSize a")
    case True
    with assms(3) have
      f: "first_addr (a\<lparr>cursor := wrap64 (cursor a + n)\<rparr>) (cursor a) (wrap64 (cursor a + n)) = Inr p"
      and s: "a' = a\<lparr>cursor := wrap64 (cursor a + n)\<rparr>"
      by (auto simp: alloc_unfold Let_def wrap64_back [OF c])
    from f k c assms(2) show ?thesis
      by (auto simp: s first_addr_def b is_int64_def split: if_splits)
  next
    case False
    with assms(3) have r: "rollover (a\<lparr>cursor := n\<rparr>) n = (Inr p, a')"
      by (simp add: alloc_unfold Let_def split: if_splits)
    from r have fr: "fst (rollover (a\<lparr>cursor := n\<rparr>) n) = Inr p"
      and sr: "snd (rollover (a\<lparr>cursor := n\<rparr>) n) = a'" by simp_all
    have "chunkSize a' = chunkSize a" using chunkSize_rollover [OF w, of n] sr by simp
    with rollover_wf_result [OF w, of n] fr sr show ?thesis
      by (auto split: if_splits)
  qed
  with w' cur buf show ?thesis by simp
qed

lemma alloc_succeeds:
  assumes "wf a" and "0 < n" and "n \<le> chunkSize a" and "0 \<le> cursor a"
    and "cursor a + n < 2 ^ 63"
    and "cursor a + n < chunkSize a \<or> limit a = 0 \<or> chunkCursor a < limit a"
  shows "\<exists>p. fst (alloc a n) = Inr p"
proof (cases "cursor a + n < chunkSize a")
  case True
  with alloc_fast_eq [OF assms(1,2,4)] show ?thesis by simp
next
  case False
  have i: "is_int64 (cursor a + n)" using assms(2,4,5) by (simp add: is_int64_def)
  have n: "is_int64 n" using assms(2,4,5) by (simp add: is_int64_def)
  have w: "wf (a\<lparr>cursor := n\<rparr>)" using assms(1) n by (rule wf_cursor)
  have "alloc a n = rollover (a\<lparr>cursor := n\<rparr>) n"
    using False assms(6) by (auto simp: alloc_unfold Let_def wrap64_id [OF i])
  with rollover_wf_result [OF w, of n] assms(2,3) show ?thesis by simp
qed

lemma alloc_heap_prefix: "wf a \<Longrightarrow> is_int64 n \<Longrightarrow> \<exists>ext. heap (snd (alloc a n)) = heap a @ ext"
proof -
  assume "wf a" and "is_int64 n"
  then have w: "wf (a\<lparr>cursor := n\<rparr>)" by (rule wf_cursor)
  have "\<exists>ext. heap (snd (rollover (a\<lparr>cursor := n\<rparr>) n)) = heap a @ ext"
    by (simp add: rollover_def next_chunk_wf [OF w] Let_def)
  then show ?thesis by (auto simp: alloc_unfold Let_def)
qed

text \<open>The active chunk after a call: the one before it, or a buffer that is new.\<close>

lemma alloc_current:
  assumes "wf a" and "is_int64 n"
  shows "(current (snd (alloc a n)) = current a \<and> chunks (snd (alloc a n)) = chunks a) \<or>
         current (snd (alloc a n)) = length (heap a)"
proof -
  have w: "wf (a\<lparr>cursor := n\<rparr>)" using assms by (rule wf_cursor)
  have "(current (snd (rollover (a\<lparr>cursor := n\<rparr>) n)) = current a \<and>
         chunks (snd (rollover (a\<lparr>cursor := n\<rparr>) n)) = chunks a) \<or>
        current (snd (rollover (a\<lparr>cursor := n\<rparr>) n)) = length (heap a)"
    by (simp add: rollover_def next_chunk_wf [OF w] Let_def)
  then show ?thesis by (auto simp: alloc_unfold Let_def)
qed

lemma alloc_appends:
  assumes "wf a" and "is_int64 n" and "\<not> fast a n" and "int (length (chunks a)) < limit a"
    and "fst (alloc a n) = Inr p"
  shows "fst p = length (heap a)"
proof -
  have w: "wf (a\<lparr>cursor := n\<rparr>)" using assms(1,2) by (rule wf_cursor)
  have c: "current (snd (rollover (a\<lparr>cursor := n\<rparr>) n)) = length (heap a)"
    using assms(4) by (simp add: rollover_def next_chunk_wf [OF w] Let_def)
  have e: "alloc a n = rollover (a\<lparr>cursor := n\<rparr>) n"
    using assms(3,5) by (auto simp: alloc_unfold Let_def fast_def split: if_splits)
  obtain a' where al: "alloc a n = (Inr p, a')" using assms(5) by (cases "alloc a n") auto
  from alloc_result [OF assms(1,2) al] have "fst p = current a'" by simp
  moreover have "a' = snd (rollover (a\<lparr>cursor := n\<rparr>) n)" using al e by simp
  ultimately show ?thesis using c by simp
qed

section \<open>Strings\<close>

lemma String_nonempty:
  assumes "wf a" and "sb < length (heap a)" and "so + len \<le> length (heap a ! sb)"
    and "0 < len" and "int len \<le> chunkSize a"
  shows "(\<forall>p l a'. String a ((sb, so), len) = (Inr (p, l), a') \<longrightarrow>
            l = len \<and>
            load_bytes (heap a') (fst p) (snd p) l = load_bytes (heap a) sb so len \<and>
            fst p \<in> set (chunks a') \<and> snd p + l \<le> length (heap a' ! fst p) \<and>
            (sb \<notin> set (chunks a) \<or> (fast a (int len) \<and> int (so + len) \<le> cursor a) \<or>
             (\<not> fast a (int len) \<and> int (length (chunks a)) < limit a)
             \<longrightarrow> fst p \<noteq> sb \<or> so + len \<le> snd p \<or> snd p + l \<le> so)) \<and>
         (0 \<le> cursor a \<and> cursor a + int len < 2 ^ 63 \<and>
          (cursor a + int len < chunkSize a \<or> limit a = 0 \<or> chunkCursor a < limit a)
          \<longrightarrow> (\<exists>p a'. String a ((sb, so), len) = (Inr (p, len), a')))"
proof (rule conjI, intro allI impI)
  fix p l a'
  assume s: "String a ((sb, so), len) = (Inr (p, l), a')"
  have i: "is_int64 (int len)"
    using assms(1,5) by (simp add: wf_def maxAlloc_def is_int64_def)
  let ?v = "load_bytes (heap a) sb so len"
  from s obtain a1 where al: "alloc a (int len) = (Inr p, a1)"
    and l: "l = len"
    and a': "a' = a1\<lparr>heap := store_bytes (heap a1) (fst p) (snd p)
                                 (load_bytes (heap a1) sb so len)\<rparr>"
    by (auto simp: String_def split: prod.splits sum.splits)
  from alloc_heap_prefix [OF assms(1) i] al obtain ext where ext: "heap a1 = heap a @ ext"
    by auto
  have same: "load_bytes (heap a1) sb so len = ?v"
    using assms(2) by (simp add: load_bytes_def ext nth_append)
  have lv: "length ?v = len" using assms(3) by (rule length_load_bytes)
  from alloc_result [OF assms(1) i al]
  have r: "fst p = current a1" "current a1 \<in> set (chunks a1)"
    "int (snd p) + int len \<le> chunkSize a1" "fst p < length (heap a1)"
    "int (length (heap a1 ! fst p)) = chunkSize a1" by auto
  then have fit: "snd p + length ?v \<le> length (heap a1 ! fst p)" unfolding lv by linarith
  have content: "load_bytes (heap a') (fst p) (snd p) l = ?v"
    using load_store_same [OF r(4) fit] by (simp add: l a' same lv)
  have a1: "a1 = snd (alloc a (int len))" using al by simp
  have apart: "sb \<notin> set (chunks a) \<or> (fast a (int len) \<and> int (so + len) \<le> cursor a) \<or>
             (\<not> fast a (int len) \<and> int (length (chunks a)) < limit a)
             \<longrightarrow> fst p \<noteq> sb \<or> so + len \<le> snd p \<or> snd p + l \<le> so"
  proof
    assume "sb \<notin> set (chunks a) \<or> (fast a (int len) \<and> int (so + len) \<le> cursor a) \<or>
             (\<not> fast a (int len) \<and> int (length (chunks a)) < limit a)"
    then consider "sb \<notin> set (chunks a)" | "fast a (int len)" "int (so + len) \<le> cursor a"
      | "\<not> fast a (int len)" "int (length (chunks a)) < limit a" by blast
    then show "fst p \<noteq> sb \<or> so + len \<le> snd p \<or> snd p + l \<le> so"
    proof cases
      case 1
      from alloc_current [OF assms(1) i] r(1,2)
      have "fst p \<in> set (chunks a) \<or> fst p = length (heap a)"
        unfolding a1 by auto
      with 1 assms(2) show ?thesis by auto
    next
      case 2
      have "0 < int len" using assms(4) by simp
      from alloc_fast_step(2) [OF assms(1) this assms(5) 2(1), of p] al
      have p: "p = (current a, nat (cursor a))" and c0: "0 \<le> cursor a" by simp_all
      have "so + len \<le> nat (cursor a)" using 2(2) c0 by linarith
      then show ?thesis by (simp add: p)
    next
      case 3
      from alloc_appends [OF assms(1) i 3, of p] al have "fst p = length (heap a)" by simp
      with assms(2) show ?thesis by simp
    qed
  qed
  show "l = len \<and> load_bytes (heap a') (fst p) (snd p) l = ?v \<and>
        fst p \<in> set (chunks a') \<and> snd p + l \<le> length (heap a' ! fst p) \<and>
        (sb \<notin> set (chunks a) \<or> (fast a (int len) \<and> int (so + len) \<le> cursor a) \<or>
             (\<not> fast a (int len) \<and> int (length (chunks a)) < limit a)
             \<longrightarrow> fst p \<noteq> sb \<or> so + len \<le> snd p \<or> snd p + l \<le> so)"
    using r fit content apart lv by (simp add: l a')
next
  show "0 \<le> cursor a \<and> cursor a + int len < 2 ^ 63 \<and>
          (cursor a + int len < chunkSize a \<or> limit a = 0 \<or> chunkCursor a < limit a)
          \<longrightarrow> (\<exists>p a'. String a ((sb, so), len) = (Inr (p, len), a'))"
  proof
    assume h: "0 \<le> cursor a \<and> cursor a + int len < 2 ^ 63 \<and>
          (cursor a + int len < chunkSize a \<or> limit a = 0 \<or> chunkCursor a < limit a)"
    have "0 < int len" using assms(4) by simp
    from alloc_succeeds [OF assms(1) this assms(5)] h
    obtain p where "fst (alloc a (int len)) = Inr p" by blast
    then show "\<exists>p a'. String a ((sb, so), len) = (Inr (p, len), a')"
      by (cases "alloc a (int len)") (auto simp: String_def)
  qed
qed

lemma String_empty:
  assumes "wf a"
  shows "fst (String a (q, 0)) =
           Inl (if \<not> fast a 0 \<and> limit a \<noteq> 0 \<and> limit a \<le> chunkCursor a
                then CapacityExceeded else BoundsFault)"
proof -
  have "is_int64 0" by (simp add: is_int64_def)
  from alloc_out_of_range [OF assms this] show ?thesis
    by (cases "alloc a 0") (auto simp: String_def)
qed

lemmas lit_defs = literal_arena_def String_def alloc_unfold wrap64_def rollover_def
  next_chunk_def make_bytes_def maxAlloc_def Let_def first_addr_def buflen_def Create_def
  store_bytes_def load_bytes_def

text \<open>
  Claim C9 as stated covers the empty string, and says of every string that the result is
  not backed by the storage of the input. \<^verbatim>\<open>String\<close> asks \<^verbatim>\<open>alloc\<close> for 0 bytes when the
  string is empty, and \<^verbatim>\<open>alloc\<close> takes the address of the first byte of an empty range:
  a bounds fault. In the arena \<^verbatim>\<open>Create(5)\<close> the copy of \<^verbatim>\<open>"hello"\<close> fills the chunk;
  the copy of that copy goes through an expansion that appends nothing, is given the
  same five bytes, and is backed by the storage of its input.
\<close>

theorem string_faults_or_aliases:
  "Create [[104, 101, 108, 108, 111]] 5 [] = Inr (literal_arena 5) \<and>
   fst (String (literal_arena 5) ((0, 0), 0)) = Inl BoundsFault \<and>
   fst (String (literal_arena 5) ((0, 0), 5)) = Inr ((1, 0), 5) \<and>
   fst (String (snd (String (literal_arena 5) ((0, 0), 5))) ((1, 0), 5)) = Inr ((1, 0), 5)"
  by (simp add: lit_defs)

text \<open>
  Claim C9 as amended, for a string lying in the store. When it is not empty and not
  longer than \<^verbatim>\<open>chunkSize\<close>: whenever \<^verbatim>\<open>String\<close> returns a string, its content equals
  the content of the input and its bytes lie inside a chunk of the chunk list; they do
  not overlap the storage of the input when the input lies outside the chunks of the
  arena, when the call is served on the fast path and the input ends at or below the
  cursor, or when the call expands and the limit leaves room for a new chunk. \<^verbatim>\<open>String\<close>
  does return a string when the cursor is not negative, the add does not overflow, and
  the string fits into the active chunk or the chunk index is below the limit (or
  there is no limit). For the empty string \<^verbatim>\<open>String\<close> faults: with CapacityExceeded
  when the call expands at the limit, with a bounds fault otherwise.
\<close>

theorem String_in_arena:
  assumes "wf a" and "sb < length (heap a)" and "so + len \<le> length (heap a ! sb)"
  shows "(0 < len \<and> int len \<le> chunkSize a \<longrightarrow>
            (\<forall>p l a'. String a ((sb, so), len) = (Inr (p, l), a') \<longrightarrow>
               l = len \<and>
               load_bytes (heap a') (fst p) (snd p) l = load_bytes (heap a) sb so len \<and>
               fst p \<in> set (chunks a') \<and> snd p + l \<le> length (heap a' ! fst p) \<and>
               (sb \<notin> set (chunks a) \<or> (fast a (int len) \<and> int (so + len) \<le> cursor a) \<or>
                (\<not> fast a (int len) \<and> int (length (chunks a)) < limit a)
                \<longrightarrow> fst p \<noteq> sb \<or> so + len \<le> snd p \<or> snd p + l \<le> so)) \<and>
            (0 \<le> cursor a \<and> cursor a + int len < 2 ^ 63 \<and>
             (cursor a + int len < chunkSize a \<or> limit a = 0 \<or> chunkCursor a < limit a)
             \<longrightarrow> (\<exists>p a'. String a ((sb, so), len) = (Inr (p, len), a')))) \<and>
         fst (String a (q, 0)) =
           Inl (if \<not> fast a 0 \<and> limit a \<noteq> 0 \<and> limit a \<le> chunkCursor a
                then CapacityExceeded else BoundsFault)"
  using String_nonempty [OF assms] String_empty [OF assms(1), of q] by blast

theorem String_in_arena_witness:
  "wf (literal_arena 100) \<and> (0::nat) < length (heap (literal_arena 100)) \<and>
   (0::nat) + 5 \<le> length (heap (literal_arena 100) ! 0) \<and>
   String (literal_arena 100) ((0, 0), 5) =
     (Inr ((1, 0), 5),
      (literal_arena 100)\<lparr>cursor := 5,
         heap := [[104, 101, 108, 108, 111], [104, 101, 108, 108, 111] @ replicate 95 0]\<rparr>) \<and>
   load_bytes [[104, 101, 108, 108, 111], [104, 101, 108, 108, 111] @ replicate 95 0] 1 0 5 =
     load_bytes (heap (literal_arena 100)) 0 0 5 \<and>
   fst (String (literal_arena 100) ((0, 0), 0)) = Inl BoundsFault"
proof -
  have w: "wf (literal_arena 100)"
    by (simp add: wf_def literal_arena_def maxAlloc_def is_int64_def)
  have b: "(0::nat) < length (heap (literal_arena 100))"
    "(0::nat) + 5 \<le> length (heap (literal_arena 100) ! 0)"
    by (simp_all add: literal_arena_def)
  have e: "String (literal_arena 100) ((0, 0), 5) =
     (Inr ((1, 0), 5),
      (literal_arena 100)\<lparr>cursor := 5,
         heap := [[104, 101, 108, 108, 111], [104, 101, 108, 108, 111] @ replicate 95 0]\<rparr>)"
    by (simp add: lit_defs)
  have z: "fst (String (literal_arena 100) ((0, 0), 0)) = Inl BoundsFault"
    by (simp add: lit_defs)
  from String_in_arena [OF w b, of "(0, 0)"] w b e z show ?thesis
    by (simp add: literal_arena_def load_bytes_def)
qed

section \<open>Reset\<close>

lemma zero_buf_same: "b < length h \<Longrightarrow> zero_buf h b ! b = replicate (length (h ! b)) 0"
  by (simp add: zero_buf_def)

lemma zero_buf_keep:
  "h ! c = replicate (length (h ! c)) 0 \<Longrightarrow> zero_buf h b ! c = replicate (length (h ! c)) 0"
  by (cases "c = b") (auto simp: zero_buf_def)

lemma zero_chunks_keep:
  "h ! c = replicate (length (h ! c)) 0 \<Longrightarrow>
   zero_chunks h bs ! c = replicate (length (h ! c)) 0"
  unfolding zero_chunks_def
proof (induction bs arbitrary: h)
  case Nil
  then show ?case by simp
next
  case (Cons b bs)
  have "zero_buf h b ! c = replicate (length (zero_buf h b ! c)) 0"
    using zero_buf_keep [OF Cons.prems] by simp
  from Cons.IH [OF this] show ?case by simp
qed

lemma zero_chunks_zeroes:
  "b \<in> set bs \<Longrightarrow> b < length h \<Longrightarrow> zero_chunks h bs ! b = replicate (length (h ! b)) 0"
proof (induction bs arbitrary: h)
  case Nil
  then show ?case by simp
next
  case (Cons x bs)
  show ?case
  proof (cases "b = x")
    case True
    have "zero_buf h x ! x = replicate (length (zero_buf h x ! x)) 0"
      using Cons.prems(2) True by (simp add: zero_buf_same)
    from zero_chunks_keep [OF this, of bs] True show ?thesis
      by (simp add: zero_chunks_def)
  next
    case False
    with Cons.prems have "b \<in> set bs" by simp
    from Cons.IH [OF this, of "zero_buf h x"] Cons.prems(2) show ?thesis
      by (simp add: zero_chunks_def)
  qed
qed

lemma Reset_wf:
  assumes "wf a"
  shows "Reset a =
           (Inr (), a\<lparr>heap := zero_chunks (heap a) (chunks a), current := hd (chunks a),
                      chunks := [hd (chunks a)], chunkCursor := 0, cursor := 0\<rparr>)"
  using assms by (cases "chunks a") (simp_all add: Reset_def Let_def wf_def)

lemma alloc_keeps_zero_chunk:
  assumes "wf a" and "is_int64 n"
    and "heap a ! current a = replicate (nat (chunkSize a)) 0"
  shows "heap (snd (alloc a n)) ! current (snd (alloc a n)) = replicate (nat (chunkSize a)) 0"
proof -
  have w: "wf (a\<lparr>cursor := n\<rparr>)" using assms(1,2) by (rule wf_cursor)
  have "heap (snd (rollover (a\<lparr>cursor := n\<rparr>) n)) ! current (snd (rollover (a\<lparr>cursor := n\<rparr>) n))
          = replicate (nat (chunkSize a)) 0"
    using assms(3) by (simp add: rollover_def next_chunk_wf [OF w] Let_def)
  with assms(3) show ?thesis by (simp add: alloc_unfold Let_def)
qed

text \<open>
  Claim C5 as stated: the first object allocated after the \<^verbatim>\<open>Reset\<close> has the address of
  the first object allocated before it. With a limit of 2 and objects of exactly
  \<^verbatim>\<open>chunkSize\<close> bytes the first allocation expands into a second chunk; \<^verbatim>\<open>Reset\<close> drops
  that chunk from the list, and the first allocation after it expands into a chunk that
  is new.
\<close>

theorem Reset_new_chunk_moves:
  "Create [] 100 [WithLimit 2] = Inr (fresh 100 2) \<and>
   fst (alloc (fresh 100 2) 100) = Inr (1, 0) \<and>
   fst (Reset (snd (alloc (fresh 100 2) 100))) = Inr () \<and>
   fst (alloc (snd (Reset (snd (alloc (fresh 100 2) 100)))) 100) = Inr (2, 0)"
  by (simp add: eval_defs Reset_def zero_chunks_def zero_buf_def)

text \<open>
  Claim C5 as amended: after \<^verbatim>\<open>Reset\<close>, in any state an arena of any chunk size has
  reached, the cursor is 0, the chunk list holds the first chunk of the arena and nothing
  else, and every chunk the list held before reads as zero. The object allocated next is
  all zero; when it is smaller than \<^verbatim>\<open>chunkSize\<close> it lies at offset 0 of the first chunk,
  where the first object of the new arena lay if that one was smaller than \<^verbatim>\<open>chunkSize\<close>
  too.
\<close>

theorem Reset_rewinds:
  assumes "Create h cs options = Inr a0" and "reaches a0 a"
  shows "fst (Reset a) = Inr () \<and> cursor (snd (Reset a)) = 0 \<and>
         chunks (snd (Reset a)) = [hd (chunks a0)] \<and> hd (chunks a) = hd (chunks a0) \<and>
         (\<forall>b \<in> set (chunks a). heap (snd (Reset a)) ! b = replicate (nat cs) 0) \<and>
         (\<forall>k p a'. is_int64 k \<and> alloc (snd (Reset a)) k = (Inr p, a') \<longrightarrow>
            load_bytes (heap a') (fst p) (snd p) (nat k) = replicate (nat k) 0) \<and>
         (\<forall>n. 0 < n \<and> n < cs \<longrightarrow> fst (alloc a0 n) = Inr (hd (chunks a0), 0)) \<and>
         (\<forall>m. 0 < m \<and> m < cs \<longrightarrow>
            fst (alloc (snd (Reset a)) m) = Inr (hd (chunks a0), 0))"
proof -
  let ?r = "snd (Reset a)"
  have w0: "wf a0" using assms(1) by (rule wf_Create)
  have w: "wf a" using assms(2) w0 by (rule reaches_wf)
  have c0: "chunks a0 = [length h]" "chunkSize a0 = cs" "cursor a0 = 0"
    using Create_first_chunk [OF assms(1)] by simp_all
  have hd: "hd (chunks a) = hd (chunks a0)" and cs: "chunkSize a = cs"
    using reaches_hd_chunks [OF assms(2) w0] c0 by simp_all
  have wr: "wf ?r" using w by (rule wf_Reset)
  note R = Reset_wf [OF w]
  have ne: "chunks a \<noteq> []" using w by (simp add: wf_def)
  then have hin: "hd (chunks a) \<in> set (chunks a)" by simp
  have z: "\<forall>b \<in> set (chunks a). heap ?r ! b = replicate (nat cs) 0"
  proof
    fix b assume b: "b \<in> set (chunks a)"
    then have "b < length (heap a)" and "int (length (heap a ! b)) = cs"
      using w cs by (simp_all add: wf_def)
    with zero_chunks_zeroes [OF b, of "heap a"] show "heap ?r ! b = replicate (nat cs) 0"
      by (simp add: R)
  qed
  have zc: "heap ?r ! current ?r = replicate (nat (chunkSize ?r)) 0"
    using z hin cs by (simp add: R)
  have zero: "\<forall>k p a'. is_int64 k \<and> alloc ?r k = (Inr p, a') \<longrightarrow>
            load_bytes (heap a') (fst p) (snd p) (nat k) = replicate (nat k) 0"
  proof (intro allI impI)
    fix k p a'
    assume k: "is_int64 k \<and> alloc ?r k = (Inr p, a')"
    then have a': "a' = snd (alloc ?r k)" by simp
    from alloc_result [OF wr] k
    have r: "0 < k" "fst p = current a'" "int (snd p) + k \<le> chunkSize a'" by blast+
    have "chunkSize a' = chunkSize ?r"
      using alloc_result [OF wr] k chunkSize_rollover [of "?r\<lparr>cursor := k\<rparr>" k] wf_cursor [OF wr, of k]
      unfolding a' by (auto simp: alloc_unfold Let_def)
    moreover have "heap a' ! current a' = replicate (nat (chunkSize ?r)) 0"
      unfolding a' using wr k zc by (intro alloc_keeps_zero_chunk) simp_all
    ultimately show "load_bytes (heap a') (fst p) (snd p) (nat k) = replicate (nat k) 0"
      using r by (simp add: load_bytes_def min_def)
  qed
  have cur0: "current a0 = hd (chunks a0)" using w0 c0 by (simp add: wf_def)
  have f0: "\<forall>n. 0 < n \<and> n < cs \<longrightarrow> fst (alloc a0 n) = Inr (hd (chunks a0), 0)"
  proof (intro allI impI)
    fix n :: int
    assume n: "0 < n \<and> n < cs"
    have "alloc a0 n = (Inr (current a0, nat (cursor a0)), a0\<lparr>cursor := cursor a0 + n\<rparr>)"
      using n c0 by (intro alloc_fast_eq [OF w0]) simp_all
    then show "fst (alloc a0 n) = Inr (hd (chunks a0), 0)" using cur0 c0 by simp
  qed
  have f1: "\<forall>m. 0 < m \<and> m < cs \<longrightarrow> fst (alloc ?r m) = Inr (hd (chunks a0), 0)"
  proof (intro allI impI)
    fix m :: int
    assume m: "0 < m \<and> m < cs"
    have "alloc ?r m = (Inr (current ?r, nat (cursor ?r)), ?r\<lparr>cursor := cursor ?r + m\<rparr>)"
      using m cs by (intro alloc_fast_eq [OF wr]) (simp_all add: R)
    then show "fst (alloc ?r m) = Inr (hd (chunks a0), 0)" using hd by (simp add: R)
  qed
  have "fst (Reset a) = Inr () \<and> cursor ?r = 0 \<and>
         chunks ?r = [hd (chunks a0)] \<and> hd (chunks a) = hd (chunks a0)"
    using hd by (simp add: R)
  with z zero f0 f1 show ?thesis by blast
qed

theorem Reset_rewinds_witness:
  "Create [] 100 [] = Inr (fresh 100 0) \<and>
   reaches (fresh 100 0) (snd (Value (fresh 100 0) [42, 120])) \<and>
   heap (snd (Value (fresh 100 0) [42, 120])) = [[42, 120] @ replicate 98 0] \<and>
   Reset (snd (Value (fresh 100 0) [42, 120])) = (Inr (), fresh 100 0) \<and>
   fst (alloc (fresh 100 0) 2) = Inr (0, 0) \<and>
   fst (alloc (snd (Reset (snd (Value (fresh 100 0) [42, 120])))) 2) = Inr (0, 0)"
proof -
  have c: "Create [] 100 [] = Inr (fresh 100 0)" by (simp add: eval_defs)
  have v: "snd (Value (fresh 100 0) [42, 120]) =
     (snd (alloc (fresh 100 0) 2))\<lparr>heap := store_bytes (heap (snd (alloc (fresh 100 0) 2))) 0 0 [42, 120]\<rparr>"
    by (simp add: Value_def eval_defs)
  have r: "reaches (fresh 100 0) (snd (Value (fresh 100 0) [42, 120]))"
    unfolding v
    by (rule reaches.written [OF reaches.allocated [OF reaches.start]]) (simp add: is_int64_def)
  have e: "heap (snd (Value (fresh 100 0) [42, 120])) = [[42, 120] @ replicate 98 0]"
    by (simp add: Value_def eval_defs store_bytes_def)
  have z: "Reset (snd (Value (fresh 100 0) [42, 120])) = (Inr (), fresh 100 0)"
    by (simp add: Value_def eval_defs store_bytes_def Reset_def zero_chunks_def zero_buf_def)
  from Reset_rewinds [OF c r] c r e z show ?thesis
    by (simp add: fresh_def)
qed

section \<open>Append\<close>











section \<open>The chunk count at a capacity fault\<close>

text \<open>
  The CapacityExceeded fault comes from the guard of line 162 alone and leaves the chunk
  list as it is; in an arena created with a limit above 0 the list has as many chunks as
  the limit says when the fault is raised.
\<close>

lemma capacity_fault_only_from_guard:
  "fst (rollover a n) \<noteq> Inl CapacityExceeded"
  by (auto simp: rollover_def next_chunk_def make_bytes_def first_addr_def Let_def
           split: sum.splits if_splits)

lemma capacity_fault_state:
  assumes "fst (alloc a n) = Inl CapacityExceeded"
  shows "snd (alloc a n) = a\<lparr>cursor := wrap64 (cursor a + n)\<rparr> \<and>
         limit a \<noteq> 0 \<and> limit a \<le> chunkCursor a"
  using assms capacity_fault_only_from_guard [of "a\<lparr>cursor := n\<rparr>" n]
  by (auto simp: alloc_unfold Let_def first_addr_def split: if_splits)

lemma counted_alloc:
  assumes "wf a" and "is_int64 n" and "0 < limit a" and "counted a"
  shows "counted (snd (alloc a n)) \<and> limit (snd (alloc a n)) = limit a"
proof -
  have w: "wf (a\<lparr>cursor := n\<rparr>)" using assms(1,2) by (rule wf_cursor)
  have "counted (snd (rollover (a\<lparr>cursor := n\<rparr>) n)) \<and>
        limit (snd (rollover (a\<lparr>cursor := n\<rparr>) n)) = limit a"
    using assms(3,4)
    by (auto simp: rollover_def next_chunk_wf [OF w] Let_def counted_def min_def)
  then show ?thesis using assms(4) by (auto simp: alloc_unfold Let_def counted_def)
qed

lemma counted_Reset:
  assumes "wf a" and "0 < limit a"
  shows "counted (snd (Reset a)) \<and> limit (snd (Reset a)) = limit a"
  using assms by (simp add: Reset_wf counted_def min_def)

lemma reaches_counted:
  "reaches a0 a \<Longrightarrow> wf a0 \<Longrightarrow> 0 < limit a0 \<Longrightarrow> counted a0 \<Longrightarrow>
   counted a \<and> limit a = limit a0"
proof (induction rule: reaches.induct)
  case start
  then show ?case by simp
next
  case (allocated a n)
  then have "wf a" by (simp add: reaches_wf)
  with allocated counted_alloc [of a n] show ?case by simp
next
  case (reset a)
  then have "wf a" by (simp add: reaches_wf)
  with reset counted_Reset [of a] show ?case by simp
next
  case (written a b off bs)
  then show ?case by (simp add: counted_def)
qed

lemma capacity_fault_chunk_count:
  assumes "Create h cs options = Inr a0" and "reaches a0 a" and "0 < limit a0"
    and "fst (alloc a n) = Inl CapacityExceeded"
  shows "chunks (snd (alloc a n)) = chunks a \<and> int (length (chunks a)) = limit a0"
proof -
  have w0: "wf a0" using assms(1) by (rule wf_Create)
  have "chunks a0 = [length h]" "chunkCursor a0 = 0"
    using assms(1) by (auto simp: Create_def make_bytes_def fold_apply_opt_fields split: if_splits)
  then have "counted a0" using assms(3) by (simp add: counted_def min_def)
  from reaches_counted [OF assms(2) w0 assms(3) this]
  have c: "counted a" "limit a = limit a0" by simp_all
  from capacity_fault_state [OF assms(4)] c show ?thesis
    by (auto simp: counted_def min_def)
qed

end
